theory Spec2Isabelle
  imports Complex_Main
begin

section \<open>Smart Fence Guardian 2.0: signal generation and threshold detection\<close>

text \<open>
  The script \<^verbatim>\<open>Smartfenceguardian2.0.py\<close> is run top to bottom once per refresh.
  Samples are modelled as real numbers (the arithmetic of the threshold test is
  exact here; rounding of IEEE doubles is not modelled). Every random draw and the
  wall clock are explicit arguments, so that a statement "for every draw" is a
  universally quantified theorem. A raised exception is the \<open>Inl\<close> branch of a sum.
\<close>

subsection \<open>Errors and array helpers\<close>

datatype error = ValueError | KeyError | IndexError

text \<open>
  \<^verbatim>\<open>np.linspace(start, stop, num)\<close>: \<open>num\<close> samples, the step is
  \<open>(stop - start) / (num - 1)\<close>, both end points included.
\<close>

definition linspace :: "real \<Rightarrow> real \<Rightarrow> nat \<Rightarrow> real list" where
  "linspace start stop num =
     map (\<lambda>i. start + real i * ((stop - start) / real (num - 1))) [0..<num]"

text \<open>\<^verbatim>\<open>np.zeros_like(a)\<close>: zeros of the shape of \<open>a\<close>.\<close>

definition zeros_like :: "real list \<Rightarrow> real list" where
  "zeros_like a = replicate (length a) 0"

text \<open>
  \<^verbatim>\<open>a[lo:hi] = v\<close> for a scalar \<open>v\<close>: the half-open slice, clipped to the length of
  the array, is overwritten.
\<close>

definition slice_assign :: "real list \<Rightarrow> nat \<Rightarrow> nat \<Rightarrow> real \<Rightarrow> real list" where
  "slice_assign a lo hi v =
     map (\<lambda>i. if lo \<le> i \<and> i < hi then v else a ! i) [0..<length a]"

text \<open>
  Element-wise \<^verbatim>\<open>a + b\<close> of two one-dimensional arrays: equal lengths add pointwise,
  a length-one operand is broadcast, anything else raises \<^verbatim>\<open>ValueError\<close>.
\<close>

definition np_add :: "real list \<Rightarrow> real list \<Rightarrow> error + real list" where
  "np_add a b =
     (if length a = length b then Inr (map2 (+) a b)
      else if length a = 1 then Inr (map (\<lambda>y. hd a + y) b)
      else if length b = 1 then Inr (map (\<lambda>x. x + hd b) a)
      else Inl ValueError)"

text \<open>\<^verbatim>\<open>np.max(a)\<close>: raises \<^verbatim>\<open>ValueError\<close> on an empty array.\<close>

fun np_max :: "real list \<Rightarrow> error + real" where
  "np_max [] = Inl ValueError"
| "np_max (x # xs) = Inr (fold max xs x)"

subsection \<open>Configuration and simulation helpers\<close>

definition feeders :: "string list" where
  "feeders = [''Feeder-1'', ''Feeder-2'', ''Feeder-3'']"

definition substations :: "string list" where
  "substations = [''Substation-A'', ''Substation-B'']"

definition fs :: nat where
  "fs = 20000"

definition t :: "real list" where
  "t = linspace 0 0.04 fs"

text \<open>
  \<^verbatim>\<open>simulate_signal(unauth)\<close>. \<open>rn\<close> is the stream of standard normal draws
  consumed by \<^verbatim>\<open>np.random.randn(len(t))\<close> (draw \<open>i\<close> goes to sample \<open>i\<close>); \<open>u\<close> is
  the draw of \<^verbatim>\<open>np.random.rand()\<close>, uniform on \<open>[0, 1)\<close>.
\<close>

definition base :: "real list" where
  "base = map (\<lambda>x. sin (2 * pi * 50 * x)) t"

definition noise :: "(nat \<Rightarrow> real) \<Rightarrow> real list" where
  "noise rn = map (\<lambda>i. 0.02 * rn i) [0..<length t]"

definition simulate_signal :: "bool \<Rightarrow> (nat \<Rightarrow> real) \<Rightarrow> real \<Rightarrow> error + real list" where
  "simulate_signal unauth rn u =
     (if unauth then
        (let pulse = slice_assign (zeros_like t) 500 800 (8 + u * 2)
         in case np_add base (noise rn) of
              Inl e \<Rightarrow> Inl e
            | Inr bn \<Rightarrow> np_add bn pulse)
      else np_add base (noise rn))"

text \<open>A stream of draws that are all the same value, for concrete inputs.\<close>

definition constant_draws :: "real \<Rightarrow> nat \<Rightarrow> real" where
  "constant_draws c i = c"

subsection \<open>The detector\<close>

record event =
  time :: string
  substation :: string
  feeder :: string
  location :: string
  status :: string

text \<open>
  The draws and the clock that \<^verbatim>\<open>detect_event\<close> reads when it triggers:
  the raw draws behind the two \<^verbatim>\<open>random.choice\<close> calls, the \<^verbatim>\<open>random()\<close> value
  in \<open>[0, 1)\<close> behind \<^verbatim>\<open>random.uniform\<close>, and the local time of day in seconds.
\<close>

record draws =
  feeder_draw :: nat
  substation_draw :: nat
  location_draw :: real
  clock :: nat

text \<open>
  \<^verbatim>\<open>random.choice(seq)\<close> raises \<^verbatim>\<open>IndexError\<close> on an empty sequence and otherwise
  returns \<open>seq[k]\<close> for an index \<open>k\<close> drawn below \<open>len(seq)\<close>; the index is the raw draw
  reduced modulo the length.
\<close>

definition choice :: "'a list \<Rightarrow> nat \<Rightarrow> error + 'a" where
  "choice seq r = (if seq = [] then Inl IndexError else Inr (seq ! (r mod length seq)))"

text \<open>\<^verbatim>\<open>random.uniform(a, b)\<close> is \<^verbatim>\<open>a + (b - a) * random()\<close>.\<close>

definition uniform :: "real \<Rightarrow> real \<Rightarrow> real \<Rightarrow> real" where
  "uniform a b r = a + (b - a) * r"

text \<open>
  \<^verbatim>\<open>round(x, 2)\<close>: the multiple of \<open>0.01\<close> nearest to \<open>x\<close>, a tie going to the even
  one. The result is carried as its number of hundredths.
\<close>

definition round2 :: "real \<Rightarrow> int" where
  "round2 x =
     (let f = \<lfloor>x * 100\<rfloor>; d = x * 100 - of_int f
      in if d < 1 / 2 then f
         else if 1 / 2 < d then f + 1
         else if even f then f else f + 1)"

definition digit_char :: "nat \<Rightarrow> char" where
  "digit_char d = ''0123456789'' ! (d mod 10)"

fun str_nat :: "nat \<Rightarrow> string" where
  "str_nat n = (if n < 10 then [digit_char n] else str_nat (n div 10) @ [digit_char n])"

declare str_nat.simps [simp del]

text \<open>
  The text Python prints for the float \<open>k / 100\<close> inside an f-string (its \<^verbatim>\<open>repr\<close>):
  the shortest decimal that reads back as the same float, which for these values is
  the integer part, a point, and the hundredths without a trailing zero but with at
  least one digit (\<^verbatim>\<open>2.0\<close>, \<^verbatim>\<open>1.5\<close>, \<^verbatim>\<open>1.23\<close>).
\<close>

definition str_hundredths :: "int \<Rightarrow> string" where
  "str_hundredths k =
     (let n = nat \<bar>k\<bar>; frac = n mod 100
      in (if k < 0 then ''-'' else '''') @ str_nat (n div 100) @ ''.'' @
         (if frac mod 10 = 0 then [digit_char (frac div 10)]
          else [digit_char (frac div 10), digit_char frac]))"

text \<open>\<^verbatim>\<open>time.strftime("%H:%M:%S")\<close> of a time of day given in seconds.\<close>

definition pad2 :: "nat \<Rightarrow> string" where
  "pad2 n = [digit_char (n div 10), digit_char n]"

definition strftime_HMS :: "nat \<Rightarrow> string" where
  "strftime_HMS c = pad2 (c div 3600 mod 24) @ '':'' @ pad2 (c div 60 mod 60) @ '':'' @ pad2 (c mod 60)"

definition detect_event :: "real list \<Rightarrow> draws \<Rightarrow> error + event option" where
  "detect_event signal d =
     (case np_max signal of
        Inl e \<Rightarrow> Inl e
      | Inr m \<Rightarrow>
          if m > 3.0 then
            (case choice feeders (feeder_draw d) of
               Inl e \<Rightarrow> Inl e
             | Inr feeder_name \<Rightarrow>
                (case choice substations (substation_draw d) of
                   Inl e \<Rightarrow> Inl e
                 | Inr substation_name \<Rightarrow>
                    (let location_km = round2 (uniform 0.5 2.5 (location_draw d))
                     in Inr (Some \<lparr> time = strftime_HMS (clock d),
                                     substation = substation_name,
                                     feeder = feeder_name,
                                     location = str_hundredths location_km @ '' km'',
                                     status = ''Unauthorized Fence'' \<rparr>))))
          else Inr None)"

text \<open>
  The two lines \<^verbatim>\<open>signal = simulate_signal(unauth)\<close> and
  \<^verbatim>\<open>event = detect_event(signal)\<close> of a refresh.
\<close>

definition run_detector :: "bool \<Rightarrow> (nat \<Rightarrow> real) \<Rightarrow> real \<Rightarrow> draws \<Rightarrow> error + event option" where
  "run_detector unauth rn u d =
     (case simulate_signal unauth rn u of
        Inl e \<Rightarrow> Inl e
      | Inr signal \<Rightarrow> detect_event signal d)"

text \<open>One concrete set of detector draws: Feeder-1, Substation-B, 1.5 km, 12:34:56.\<close>

definition sample_draws :: draws where
  "sample_draws = \<lparr> feeder_draw = 0, substation_draw = 1, location_draw = 1 / 2, clock = 45296 \<rparr>"

subsection \<open>Rolling RMS\<close>

text \<open>
  \<^verbatim>\<open>np.convolve(a, v, mode="valid")\<close>: raises \<^verbatim>\<open>ValueError\<close> when an operand is empty,
  swaps the operands when \<open>v\<close> is the longer one, and returns the
  \<open>len(a) - len(v) + 1\<close> sums in which the reversed \<open>v\<close> overlaps \<open>a\<close> completely.
\<close>

definition convolve_valid :: "real list \<Rightarrow> real list \<Rightarrow> error + real list" where
  "convolve_valid a v =
     (if a = [] \<or> v = [] then Inl ValueError
      else
        (let a' = (if length a < length v then v else a);
             v' = (if length a < length v then a else v)
         in Inr (map (\<lambda>k. sum_list (map2 (*) (take (length v') (drop k a')) (rev v')))
                   [0..<length a' - length v' + 1])))"

text \<open>
  \<^verbatim>\<open>np.sqrt\<close> of one sample: a negative argument gives \<^verbatim>\<open>nan\<close> (here \<open>None\<close>), which is
  neither negative nor non-negative.
\<close>

definition np_sqrt :: "real \<Rightarrow> real option" where
  "np_sqrt x = (if x < 0 then None else Some (sqrt x))"

definition window :: nat where
  "window = 500"

definition rms_vals :: "real list \<Rightarrow> error + real option list" where
  "rms_vals signal =
     (case convolve_valid (map (\<lambda>x. x\<^sup>2) signal)
             (map (\<lambda>x. x / real window) (replicate window 1)) of
        Inl e \<Rightarrow> Inl e
      | Inr c \<Rightarrow> Inr (map np_sqrt c))"

subsection \<open>One refresh and a session\<close>

text \<open>
  \<^verbatim>\<open>st.session_state\<close> is a dictionary; the script uses the key \<^verbatim>\<open>"events"\<close> only.
\<close>

type_synonym session_state = "string \<rightharpoonup> event list"

text \<open>
  What one run of the script reads from outside: the two check boxes that decide
  what is computed (the other check boxes only choose what is drawn) and the random
  draws.
\<close>

record refresh_input =
  unauth :: bool
  show_rms :: bool
  randn :: "nat \<Rightarrow> real"
  rand :: real
  det :: draws

text \<open>\<^verbatim>\<open>l.insert(i, x)\<close> for \<open>i \<ge> 0\<close>.\<close>

definition list_insert :: "nat \<Rightarrow> 'a \<Rightarrow> 'a list \<Rightarrow> 'a list" where
  "list_insert i x l = take i l @ x # drop i l"

text \<open>
  One run of the script, as far as the session state is concerned. The plots, the
  two spectra computed only to be plotted, the map and the status messages do not
  touch the state and are left out; the rolling RMS is computed before the log is
  updated, so an exception there would skip the update. A returned event is a
  dictionary of five keys, hence true in \<^verbatim>\<open>if event:\<close>.
\<close>

definition refresh :: "refresh_input \<Rightarrow> session_state \<Rightarrow> error + session_state" where
  "refresh x st =
     (let st1 = (if ''events'' \<notin> dom st then st(''events'' \<mapsto> []) else st)
      in case simulate_signal (unauth x) (randn x) (rand x) of
           Inl e \<Rightarrow> Inl e
         | Inr signal \<Rightarrow>
            (case detect_event signal (det x) of
               Inl e \<Rightarrow> Inl e
             | Inr event \<Rightarrow>
                (case (if show_rms x then rms_vals signal else Inr []) of
                   Inl e \<Rightarrow> Inl e
                 | Inr _ \<Rightarrow>
                    (case event of
                       Some ev \<Rightarrow>
                         (case st1 ''events'' of
                            None \<Rightarrow> Inl KeyError
                          | Some l \<Rightarrow> Inr (st1(''events'' \<mapsto> list_insert 0 ev l)))
                     | None \<Rightarrow> Inr st1))))"

fun run_session :: "session_state \<Rightarrow> refresh_input list \<Rightarrow> error + session_state" where
  "run_session st [] = Inr st"
| "run_session st (x # xs) =
     (case refresh x st of Inl e \<Rightarrow> Inl e | Inr st' \<Rightarrow> run_session st' xs)"

text \<open>The log as the event table reads it; a session that never ran has none.\<close>

definition events_of :: "session_state \<Rightarrow> event list" where
  "events_of st = (case st ''events'' of None \<Rightarrow> [] | Some l \<Rightarrow> l)"

text \<open>
  The detection threshold condition of one refresh, and the record that refresh
  builds when the condition holds.
\<close>

definition triggered :: "refresh_input \<Rightarrow> bool" where
  "triggered x =
     (case simulate_signal (unauth x) (randn x) (rand x) of
        Inl e \<Rightarrow> False
      | Inr signal \<Rightarrow> (case np_max signal of Inl e \<Rightarrow> False | Inr m \<Rightarrow> 3 < m))"

definition event_of :: "refresh_input \<Rightarrow> event" where
  "event_of x =
     \<lparr> time = strftime_HMS (clock (det x)),
       substation = substations ! (substation_draw (det x) mod length substations),
       feeder = feeders ! (feeder_draw (det x) mod length feeders),
       location = str_hundredths (round2 (uniform 0.5 2.5 (location_draw (det x)))) @ '' km'',
       status = ''Unauthorized Fence'' \<rparr>"

text \<open>
  Concrete refreshes: one with the pulse switched on (no noise, pulse draw one half)
  and given detector draws, one without the pulse; and a second set of detector
  draws: Feeder-3, Substation-A, 0.62 km, 12:35:00.
\<close>

definition pulse_refresh :: "draws \<Rightarrow> refresh_input" where
  "pulse_refresh d =
     \<lparr> unauth = True, show_rms = True, randn = constant_draws 0, rand = 1 / 2, det = d \<rparr>"

definition quiet_refresh :: refresh_input where
  "quiet_refresh =
     \<lparr> unauth = False, show_rms = True, randn = constant_draws 0, rand = 0, det = sample_draws \<rparr>"

definition later_draws :: draws where
  "later_draws = \<lparr> feeder_draw = 2, substation_draw = 0, location_draw = 1 / 16, clock = 45300 \<rparr>"

subsection \<open>CSV export\<close>

text \<open>
  \<^verbatim>\<open>pd.DataFrame(events)\<close> of a list of dictionaries with the same keys has one column
  per key, in the order the keys were written, and one row per dictionary.
\<close>

definition columns :: "string list" where
  "columns = [''time'', ''substation'', ''feeder'', ''location'', ''status'']"

definition row_of :: "event \<Rightarrow> string list" where
  "row_of ev = [time ev, substation ev, feeder ev, location ev, status ev]"

text \<open>
  \<^verbatim>\<open>to_csv(index=False)\<close> writes the header and the rows with the \<^verbatim>\<open>csv\<close> writer's
  defaults: comma separated, every line ended by a line feed, a field quoted only
  when it holds a comma, a double quote or a line break, with the double quotes
  inside it doubled. Strings are byte strings here, so \<^verbatim>\<open>.encode('utf-8')\<close> leaves
  the text as it is.
\<close>

definition needs_quote :: "string \<Rightarrow> bool" where
  "needs_quote s = list_ex (\<lambda>c. c = CHR '','' \<or> c = CHR 0x22 \<or> c = CHR 0x0A \<or> c = CHR 0x0D) s"

definition escape_quotes :: "string \<Rightarrow> string" where
  "escape_quotes s = concat (map (\<lambda>c. if c = CHR 0x22 then [CHR 0x22, CHR 0x22] else [c]) s)"

definition quote_field :: "string \<Rightarrow> string" where
  "quote_field s = (if needs_quote s then CHR 0x22 # escape_quotes s @ [CHR 0x22] else s)"

fun join_fields :: "string list \<Rightarrow> string" where
  "join_fields [] = []"
| "join_fields [f] = f"
| "join_fields (f # g # gs) = f @ CHR '','' # join_fields (g # gs)"

definition csv_line :: "string list \<Rightarrow> string" where
  "csv_line cells = join_fields (map quote_field cells) @ [CHR 0x0A]"

definition to_csv :: "event list \<Rightarrow> string" where
  "to_csv evs = concat (map csv_line (columns # map row_of evs))"

text \<open>The download is offered only when the log is not empty.\<close>

definition export_csv :: "session_state \<Rightarrow> string option" where
  "export_csv st =
     (case st ''events'' of
        None \<Rightarrow> None
      | Some evs \<Rightarrow> if length evs > 0 then Some (to_csv evs) else None)"

text \<open>
  Modelled from the spec: the reader that parses the exported file back. The script
  only writes the file; the spec's round trip ("exporting then re-parsing") needs a
  reader, taken here as a standard reader of comma separated text: one character at a
  time, a field may be enclosed in double quotes with a doubled quote standing for
  one, and the field and the row under construction are kept in reverse.
\<close>

datatype pstate = Plain | Quoted | QuoteSeen

type_synonym pconf = "pstate \<times> string \<times> string list \<times> string list list"

fun end_field :: "pconf \<Rightarrow> pconf" where
  "end_field (q, fld, row, rows) = (Plain, [], rev fld # row, rows)"

fun end_row :: "pconf \<Rightarrow> pconf" where
  "end_row (q, fld, row, rows) = (Plain, [], [], rev (rev fld # row) # rows)"

fun csv_step :: "pconf \<Rightarrow> char \<Rightarrow> pconf" where
  "csv_step (Quoted, fld, row, rows) c =
     (if c = CHR 0x22 then (QuoteSeen, fld, row, rows) else (Quoted, c # fld, row, rows))"
| "csv_step (QuoteSeen, fld, row, rows) c =
     (if c = CHR 0x22 then (Quoted, c # fld, row, rows)
      else if c = CHR '','' then end_field (QuoteSeen, fld, row, rows)
      else if c = CHR 0x0A then end_row (QuoteSeen, fld, row, rows)
      else (Plain, c # fld, row, rows))"
| "csv_step (Plain, fld, row, rows) c =
     (if c = CHR 0x22 then (Quoted, fld, row, rows)
      else if c = CHR '','' then end_field (Plain, fld, row, rows)
      else if c = CHR 0x0A then end_row (Plain, fld, row, rows)
      else (Plain, c # fld, row, rows))"

fun finish :: "pconf \<Rightarrow> string list list" where
  "finish (q, fld, row, rows) =
     rev (if fld = [] \<and> row = [] \<and> q = Plain then rows else rev (rev fld # row) # rows)"

definition read_csv :: "string \<Rightarrow> string list list" where
  "read_csv s = finish (foldl csv_step (Plain, [], [], []) s)"

subsection \<open>The location format of the spec\<close>



section \<open>Properties\<close>

subsection \<open>Shared facts about the arrays\<close>

lemma length_t: "length t = 20000"
  by (simp add: t_def linspace_def fs_def)

lemma np_max_Max:
  assumes "signal \<noteq> []"
  shows "np_max signal = Inr (Max (set signal))"
proof (cases signal)
  case Nil
  with assms show ?thesis by simp
next
  case (Cons x xs)
  then show ?thesis using Max.set_eq_fold [of x xs] by simp
qed

lemma length_base: "length base = 20000"
  by (simp add: base_def length_t)

lemma length_noise: "length (noise rn) = 20000"
  by (simp add: noise_def length_t)

lemma simulate_signal_quiet:
  "simulate_signal False rn u = Inr (map (\<lambda>i. base ! i + noise rn ! i) [0..<20000])"
  unfolding simulate_signal_def np_add_def
  by (simp add: length_base length_noise list_eq_iff_nth_eq)

lemma simulate_signal_pulse:
  "simulate_signal True rn u =
     Inr (map (\<lambda>i. base ! i + noise rn ! i + (if 500 \<le> i \<and> i < 800 then 8 + u * 2 else 0))
            [0..<20000])"
  unfolding simulate_signal_def Let_def np_add_def slice_assign_def zeros_like_def
  by (simp add: length_t length_base length_noise list_eq_iff_nth_eq)

lemma signal_nonempty: "simulate_signal flag rn u = Inr s \<Longrightarrow> s \<noteq> []"
  by (cases flag) (auto simp: simulate_signal_quiet simulate_signal_pulse)

lemma base_bounds: "i < 20000 \<Longrightarrow> - 1 \<le> base ! i \<and> base ! i \<le> 1"
  by (simp add: base_def length_t)

lemma noise_nth: "i < 20000 \<Longrightarrow> noise rn ! i = 0.02 * rn i"
  by (simp add: noise_def length_t)

lemma choice_feeders: "choice feeders r = Inr (feeders ! (r mod length feeders))"
  by (simp add: choice_def feeders_def)

lemma choice_substations:
  "choice substations r = Inr (substations ! (r mod length substations))"
  by (simp add: choice_def substations_def)

lemma detect_event_iff:
  assumes "signal \<noteq> []"
  shows "((\<exists>ev. detect_event signal d = Inr (Some ev)) \<longleftrightarrow> 3 < Max (set signal)) \<and>
         (detect_event signal d = Inr None \<longleftrightarrow> Max (set signal) \<le> 3)"
proof -
  have m: "np_max signal = Inr (Max (set signal))"
    using assms by (rule np_max_Max)
  show ?thesis
    unfolding detect_event_def m Let_def choice_feeders choice_substations
    by (simp add: not_less del: Max_le_iff Max_less_iff)
qed

lemma str_nat_small: "n < 10 \<Longrightarrow> str_nat n = [digit_char n]"
  by (subst str_nat.simps) simp

lemma sample_event:
  assumes "detect_event signal sample_draws = Inr (Some ev)"
  shows "ev = \<lparr> time = ''12:34:56'', substation = ''Substation-B'', feeder = ''Feeder-1'',
                location = ''1.5 km'', status = ''Unauthorized Fence'' \<rparr>"
  using assms
  by (simp add: detect_event_def sample_draws_def Let_def choice_def feeders_def
      substations_def uniform_def round2_def str_hundredths_def strftime_HMS_def pad2_def
      digit_char_def str_nat_small split: if_splits sum.splits)

lemma quiet_Max:
  assumes "\<forall>i<20000. \<bar>rn i\<bar> \<le> 2"
  shows "Max (set (map (\<lambda>i. base ! i + noise rn ! i) [0..<20000])) \<le> 3"
proof -
  have "base ! i + noise rn ! i \<le> 3" if "i < 20000" for i
  proof -
    have "\<bar>rn i\<bar> \<le> 2" using assms that by simp
    then have "noise rn ! i \<le> 0.04" using that by (simp add: noise_nth)
    moreover have "base ! i \<le> 1" using that by (simp add: base_bounds)
    ultimately show ?thesis by simp
  qed
  then show ?thesis by (subst Max_le_iff) auto
qed

lemma pulse_Max:
  assumes "0 \<le> u" "500 \<le> i" "i < 800" "- 200 < rn i"
  shows "3 < Max (set (map (\<lambda>i. base ! i + noise rn ! i + (if 500 \<le> i \<and> i < 800 then 8 + u * 2 else 0)) [0..<20000]))"
proof -
  let ?f = "\<lambda>i. base ! i + noise rn ! i + (if 500 \<le> i \<and> i < 800 then 8 + u * 2 else 0)"
  have i: "i < 20000" using assms by simp
  have "- 1 \<le> base ! i" using i by (simp add: base_bounds)
  moreover have "- 4 < noise rn ! i" using i assms by (simp add: noise_nth)
  ultimately have gt: "3 < ?f i" using assms by simp
  have "?f i \<in> set (map ?f [0..<20000])" using i by (simp del: upt_Suc)
  then have "?f i \<le> Max (set (map ?f [0..<20000]))" by (intro Max_ge) simp_all
  with gt show ?thesis by (rule less_le_trans)
qed


lemma sum_list_map2_replicate:
  fixes xs :: "real list"
  shows "length xs = m \<Longrightarrow> sum_list (map2 (*) xs (replicate m c)) = sum_list xs * c"
proof (induction xs arbitrary: m)
  case Nil
  then show ?case by simp
next
  case (Cons x xs)
  then obtain m' where "m = Suc m'" by (cases m) auto
  with Cons show ?case by (simp add: algebra_simps)
qed

lemma sum_list_window:
  fixes xs :: "real list"
  assumes "k + m \<le> length xs"
  shows "sum_list (take m (drop k xs)) = (\<Sum>j<m. xs ! (k + j))"
proof -
  have "sum_list (take m (drop k xs)) = (\<Sum>j = 0..<m. take m (drop k xs) ! j)"
    using assms by (simp add: sum_list_sum_nth)
  also have "\<dots> = (\<Sum>j = 0..<m. xs ! (k + j))"
    using assms by (intro sum.cong) simp_all
  finally show ?thesis by (simp add: atLeast0LessThan)
qed

lemma convolve_window:
  assumes "500 \<le> length signal"
  shows "convolve_valid (map (\<lambda>x. x\<^sup>2) signal) (map (\<lambda>x. x / real window) (replicate window 1)) =
         Inr (map (\<lambda>k. (\<Sum>j<500. (signal ! (k + j))\<^sup>2) / 500) [0..<length signal - 500 + 1])"
proof -
  have v: "map (\<lambda>x. x / real window) (replicate window 1) = replicate 500 (1 / 500)"
    by (simp add: window_def)
  have ne: "map (\<lambda>x. x\<^sup>2) signal \<noteq> []" using assms by auto
  have "sum_list (map2 (*) (take 500 (drop k (map (\<lambda>x. x\<^sup>2) signal))) (rev (replicate 500 (1 / 500)))) =
        (\<Sum>j<500. (signal ! (k + j))\<^sup>2) / 500" if "k < length signal - 500 + 1" for k
  proof -
    have k: "k + 500 \<le> length signal" using that assms by simp
    have "sum_list (map2 (*) (take 500 (drop k (map (\<lambda>x. x\<^sup>2) signal))) (replicate 500 (1 / 500))) =
          sum_list (take 500 (drop k (map (\<lambda>x. x\<^sup>2) signal))) * (1 / 500)"
      using k by (intro sum_list_map2_replicate) simp
    also have "sum_list (take 500 (drop k (map (\<lambda>x. x\<^sup>2) signal))) = (\<Sum>j<500. map (\<lambda>x. x\<^sup>2) signal ! (k + j))"
      using k by (intro sum_list_window) simp
    also have "\<dots> = (\<Sum>j<500. (signal ! (k + j))\<^sup>2)"
      using k by (intro sum.cong) simp_all
    finally show ?thesis by simp
  qed
  then show ?thesis
    unfolding v convolve_valid_def using assms ne
    by (simp add: Let_def del: upt_Suc)
qed

lemma rms_vals_succeeds: "signal \<noteq> [] \<Longrightarrow> \<exists>r. rms_vals signal = Inr r"
  by (simp add: rms_vals_def convolve_valid_def window_def Let_def)

lemma state_with_events: "(if ''events'' \<notin> dom st then st(''events'' \<mapsto> []) else st) = st(''events'' \<mapsto> events_of st)"
  by (auto simp: events_of_def fun_upd_idem_iff split: option.splits)

lemma run_detector_event:
  "run_detector (unauth x) (randn x) (rand x) (det x) =
     Inr (if triggered x then Some (event_of x) else None)"
proof -
  obtain s where s: "simulate_signal (unauth x) (randn x) (rand x) = Inr s"
    by (cases "unauth x") (simp_all add: simulate_signal_quiet simulate_signal_pulse)
  then have "s \<noteq> []" by (rule signal_nonempty)
  then obtain m where m: "np_max s = Inr m" by (cases s) simp_all
  show ?thesis
    by (simp add: run_detector_def triggered_def s m detect_event_def event_of_def Let_def
        choice_feeders choice_substations)
qed

lemma refresh_eval:
  "refresh x st =
     Inr (st(''events'' \<mapsto> (if triggered x then [event_of x] else []) @ events_of st))"
proof -
  obtain s where s: "simulate_signal (unauth x) (randn x) (rand x) = Inr s"
    by (cases "unauth x") (simp_all add: simulate_signal_quiet simulate_signal_pulse)
  then have ne: "s \<noteq> []" by (rule signal_nonempty)
  then obtain r where r: "rms_vals s = Inr r" using rms_vals_succeeds by blast
  have d: "detect_event s (det x) = Inr (if triggered x then Some (event_of x) else None)"
    using run_detector_event [of x] by (simp add: run_detector_def s)
  show ?thesis
    unfolding refresh_def state_with_events Let_def
    by (simp add: s d r list_insert_def)
qed

lemma events_of_upd: "events_of (st(''events'' \<mapsto> l)) = l"
  by (simp add: events_of_def)

lemma run_session_eval:
  "\<exists>st'. run_session st xs = Inr st' \<and>
     events_of st' = rev (map event_of (filter triggered xs)) @ events_of st \<and>
     (xs \<noteq> [] \<longrightarrow> st' = st(''events'' \<mapsto> events_of st'))"
proof (induction xs arbitrary: st)
  case Nil
  then show ?case by simp
next
  case (Cons x xs)
  let ?st1 = "st(''events'' \<mapsto> (if triggered x then [event_of x] else []) @ events_of st)"
  obtain st' where 1: "run_session ?st1 xs = Inr st'"
    and 2: "events_of st' = rev (map event_of (filter triggered xs)) @ events_of ?st1"
    and 3: "xs \<noteq> [] \<longrightarrow> st' = ?st1(''events'' \<mapsto> events_of st')"
    using Cons.IH [of ?st1] by blast
  have "run_session st (x # xs) = Inr st'" by (simp add: refresh_eval 1)
  moreover have "events_of st' = rev (map event_of (filter triggered (x # xs))) @ events_of st"
    using 2 by (simp add: events_of_upd)
  moreover have "st' = st(''events'' \<mapsto> events_of st')"
  proof (cases xs)
    case Nil
    with 1 have "st' = ?st1" by simp
    then show ?thesis by (metis events_of_upd)
  next
    case (Cons y ys)
    with 3 show ?thesis by (metis fun_upd_upd list.distinct(1))
  qed
  ultimately show ?case by blast
qed

lemma run_session_append:
  "run_session st (ys @ zs) =
     (case run_session st ys of Inl e \<Rightarrow> Inl e | Inr st' \<Rightarrow> run_session st' zs)"
  by (induction ys arbitrary: st) (auto split: sum.splits)

lemma triggered_pulse:
  assumes "unauth x" and "0 \<le> rand x" and "500 \<le> i" and "i < 800" and "- 200 < randn x i"
  shows "triggered x"
proof -
  let ?s = "map (\<lambda>i. base ! i + noise (randn x) ! i +
      (if 500 \<le> i \<and> i < 800 then 8 + rand x * 2 else 0)) [0..<20000]"
  have s: "simulate_signal (unauth x) (randn x) (rand x) = Inr ?s"
    using assms(1) by (simp add: simulate_signal_pulse)
  have ne: "?s \<noteq> []" by simp
  have "3 < Max (set ?s)" using assms(2-5) by (rule pulse_Max)
  then show ?thesis unfolding triggered_def s using np_max_Max [OF ne] by simp
qed

lemma not_triggered_quiet:
  assumes "\<not> unauth x" and "\<forall>i<20000. \<bar>randn x i\<bar> \<le> 2"
  shows "\<not> triggered x"
proof -
  let ?s = "map (\<lambda>i. base ! i + noise (randn x) ! i) [0..<20000]"
  have s: "simulate_signal (unauth x) (randn x) (rand x) = Inr ?s"
    using assms(1) by (simp add: simulate_signal_quiet)
  have ne: "?s \<noteq> []" by simp
  have "Max (set ?s) \<le> 3" using assms(2) by (rule quiet_Max)
  then show ?thesis unfolding triggered_def s using np_max_Max [OF ne] by (simp add: not_less)
qed

lemma triggered_pulse_refresh: "triggered (pulse_refresh d)"
  by (rule triggered_pulse [where i = 500]) (simp_all add: pulse_refresh_def constant_draws_def)

lemma not_triggered_quiet_refresh: "\<not> triggered quiet_refresh"
  by (rule not_triggered_quiet) (simp_all add: quiet_refresh_def constant_draws_def)

lemma event_of_sample:
  "event_of (pulse_refresh sample_draws) =
     \<lparr> time = ''12:34:56'', substation = ''Substation-B'', feeder = ''Feeder-1'',
       location = ''1.5 km'', status = ''Unauthorized Fence'' \<rparr>"
  by (simp add: event_of_def pulse_refresh_def sample_draws_def choice_def feeders_def
      substations_def uniform_def round2_def str_hundredths_def strftime_HMS_def pad2_def
      digit_char_def str_nat_small)

lemma event_of_later:
  "event_of (pulse_refresh later_draws) =
     \<lparr> time = ''12:35:00'', substation = ''Substation-A'', feeder = ''Feeder-3'',
       location = ''0.62 km'', status = ''Unauthorized Fence'' \<rparr>"
  by (simp add: event_of_def pulse_refresh_def later_draws_def choice_def feeders_def
      substations_def uniform_def round2_def str_hundredths_def strftime_HMS_def pad2_def
      digit_char_def str_nat_small)











lemma parse_plain:
  assumes "\<not> needs_quote s"
  shows "foldl csv_step (Plain, fld, row, rows) s = (Plain, rev s @ fld, row, rows)"
  using assms by (induction s arbitrary: fld) (simp_all add: needs_quote_def)

lemma parse_escaped:
  "foldl csv_step (Quoted, fld, row, rows) (escape_quotes s) = (Quoted, rev s @ fld, row, rows)"
  by (induction s arbitrary: fld) (simp_all add: escape_quotes_def)

lemma parse_field:
  "foldl csv_step (Plain, [], row, rows) (quote_field s) =
     (if needs_quote s then QuoteSeen else Plain, rev s, row, rows)"
  by (simp add: quote_field_def parse_plain parse_escaped)

lemma parse_field_comma:
  "foldl csv_step (Plain, [], row, rows) (quote_field s @ CHR '','' # rest) =
     foldl csv_step (Plain, [], s # row, rows) rest"
  by (simp add: parse_field)

lemma parse_field_newline:
  "foldl csv_step (Plain, [], row, rows) (quote_field s @ [CHR 0x0A]) =
     (Plain, [], [], rev (s # row) # rows)"
  by (simp add: parse_field)

lemma parse_line:
  "foldl csv_step (Plain, [], row, rows) (csv_line (c # cs)) =
     (Plain, [], [], rev (rev (c # cs) @ row) # rows)"
proof (induction cs arbitrary: c row)
  case Nil
  show ?case by (simp add: csv_line_def parse_field)
next
  case (Cons g gs)
  have "csv_line (c # g # gs) = quote_field c @ CHR '','' # csv_line (g # gs)"
    by (simp add: csv_line_def)
  then show ?case by (simp add: parse_field Cons.IH)
qed

lemma parse_lines:
  assumes "\<forall>l\<in>set ls. l \<noteq> []"
  shows "foldl csv_step (Plain, [], [], rows) (concat (map csv_line ls)) =
           (Plain, [], [], rev ls @ rows)"
  using assms
proof (induction ls arbitrary: rows)
  case Nil
  show ?case by simp
next
  case (Cons l ls)
  then obtain c cs where l: "l = c # cs" by (cases l) auto
  have "foldl csv_step (Plain, [], [], rows) (csv_line l) = (Plain, [], [], l # rows)"
    unfolding l using parse_line [of "[]" rows c cs] by simp
  with Cons show ?case by simp
qed

lemma read_csv_to_csv: "read_csv (to_csv evs) = columns # map row_of evs"
proof -
  have "\<forall>l\<in>set (columns # map row_of evs). l \<noteq> []"
    by (auto simp: columns_def row_of_def)
  then show ?thesis
    unfolding read_csv_def to_csv_def by (simp only: parse_lines) simp
qed

lemma header_line: "csv_line columns = ''time,substation,feeder,location,status'' @ [CHR 0x0A]"
  by (simp add: csv_line_def columns_def quote_field_def needs_quote_def)

subsection \<open>The detector is a threshold test\<close>

text \<open>
  Claim C1. Given a sample sequence that has a maximum (a non-empty one; on an empty
  array \<^verbatim>\<open>np.max\<close> raises), \<^verbatim>\<open>detect_event\<close> returns an event record exactly when the
  maximum exceeds 3.0, and returns \<^verbatim>\<open>None\<close> exactly when the maximum is at most 3.0,
  whatever the draws for feeder, substation, location and the clock.
\<close>

theorem detect_event_threshold:
  assumes "signal \<noteq> []"
  shows "((\<exists>ev. detect_event signal d = Inr (Some ev)) \<longleftrightarrow> 3 < Max (set signal)) \<and>
         (detect_event signal d = Inr None \<longleftrightarrow> Max (set signal) \<le> 3)"
  using assms by (rule detect_event_iff)

theorem detect_event_threshold_witness:
  "[4 :: real] \<noteq> [] \<and> [1 :: real] \<noteq> [] \<and>
   detect_event [4] sample_draws =
     Inr (Some \<lparr> time = ''12:34:56'', substation = ''Substation-B'', feeder = ''Feeder-1'',
                 location = ''1.5 km'', status = ''Unauthorized Fence'' \<rparr>) \<and>
   detect_event [1] sample_draws = Inr None"
proof -
  have a: "\<exists>ev. detect_event [4] sample_draws = Inr (Some ev)"
    using detect_event_threshold [of "[4]" sample_draws] by simp
  have b: "detect_event [1] sample_draws = Inr None"
    using detect_event_threshold [of "[1]" sample_draws] by simp
  from a obtain ev where ev: "detect_event [4] sample_draws = Inr (Some ev)" ..
  from ev b sample_event [OF ev] show ?thesis by simp
qed

subsection \<open>Length of the generated signal\<close>

text \<open>
  Claim C3. \<^verbatim>\<open>simulate_signal\<close> always succeeds and returns the same number of samples
  for both values of the flag. That number is \<open>fs = 20000\<close>, the sample count handed
  to \<^verbatim>\<open>np.linspace\<close>, and not the product of the 0.04 s window and the 20000 samples
  per second that the comments of the script announce, which would be 800.
\<close>

theorem simulate_signal_length:
  "\<exists>signal. simulate_signal flag rn u = Inr signal \<and> length signal = fs \<and>
     length signal = 20000 \<and> length signal \<noteq> 800"
  by (cases flag) (simp_all add: simulate_signal_quiet simulate_signal_pulse fs_def)

subsection \<open>No detection without a pulse\<close>



subsection \<open>Detection with a pulse\<close>




subsection \<open>Shape of the pulse\<close>



subsection \<open>Rolling RMS\<close>

text \<open>
  Claim C5. For every sample sequence of length at least 500 the rolling RMS succeeds,
  its output has length \<open>len(signal) - 500 + 1\<close>, and every output value is a number
  (not \<^verbatim>\<open>nan\<close>) that is non-negative: entry \<open>k\<close> is the square root of the mean of the
  500 squared samples starting at \<open>k\<close>.
\<close>

theorem rolling_rms_length_nonneg:
  assumes "500 \<le> length signal"
  shows "\<exists>r. rms_vals signal = Inr r \<and> length r = length signal - 500 + 1 \<and>
           (\<forall>k<length r. \<exists>v. r ! k = Some v \<and> 0 \<le> v \<and>
                v = sqrt ((\<Sum>j<500. (signal ! (k + j))\<^sup>2) / 500))"
proof -
  let ?avg = "\<lambda>k. (\<Sum>j<500. (signal ! (k + j))\<^sup>2) / 500"
  let ?r = "map (\<lambda>k. np_sqrt (?avg k)) [0..<length signal - 500 + 1]"
  have nn: "0 \<le> ?avg k" for k
    by (intro divide_nonneg_nonneg sum_nonneg) simp_all
  have sq: "np_sqrt (?avg k) = Some (sqrt (?avg k))" for k
    using nn [of k] unfolding np_sqrt_def by (simp only: not_less [symmetric] if_False)
  have r: "rms_vals signal = Inr ?r"
    unfolding rms_vals_def convolve_window [OF assms] by (simp del: upt_Suc)
  have "?r ! k = Some (sqrt (?avg k)) \<and> 0 \<le> sqrt (?avg k)" if "k < length ?r" for k
  proof -
    have "?r ! k = np_sqrt (?avg k)" using that by (simp del: upt_Suc)
    with sq [of k] nn [of k] show ?thesis by simp
  qed
  then have "\<forall>k<length ?r. \<exists>v. ?r ! k = Some v \<and> 0 \<le> v \<and> v = sqrt (?avg k)" by blast
  moreover have "length ?r = length signal - 500 + 1" by simp
  ultimately show ?thesis using r by blast
qed

theorem rolling_rms_length_nonneg_witness:
  "rms_vals (replicate 500 2) = Inr [Some 2]"
proof -
  obtain r where r: "rms_vals (replicate 500 2) = Inr r" and l: "length r = 1"
    and v: "\<forall>k<length r. \<exists>v. r ! k = Some v \<and> 0 \<le> v \<and>
                v = sqrt ((\<Sum>j<500. (replicate 500 (2::real) ! (k + j))\<^sup>2) / 500)"
    using rolling_rms_length_nonneg [of "replicate 500 2"] by auto
  have "(\<Sum>j<500. (replicate 500 (2::real) ! (0 + j))\<^sup>2) = (\<Sum>j<500::nat. 4)"
    by (intro sum.cong) simp_all
  then have "r ! 0 = Some 2" using v l by simp
  with l have "r = [Some 2]" by (cases r) auto
  with r show ?thesis by simp
qed

subsection \<open>The event log\<close>

text \<open>
  Claim C6. The event log is prepend-only and newest first. After any sequence of
  refreshes of a session, the log holds exactly the records of the refreshes whose
  signal satisfied the threshold condition, the most recent one at index 0, so its
  length is the number of triggered detections; and at every earlier moment of the
  session the log was a suffix of the final log, the records added since then being
  one per later detection: nothing already in the log is changed or removed.
\<close>

theorem event_log_prepend_only:
  "\<exists>st. run_session Map.empty xs = Inr st \<and>
     events_of st = rev (map event_of (filter triggered xs)) \<and>
     length (events_of st) = length (filter triggered xs) \<and>
     (filter triggered xs \<noteq> [] \<longrightarrow> events_of st ! 0 = event_of (last (filter triggered xs))) \<and>
     (\<forall>ys zs. xs = ys @ zs \<longrightarrow>
        (\<exists>st0 new. run_session Map.empty ys = Inr st0 \<and>
           events_of st = new @ events_of st0 \<and> length new = length (filter triggered zs)))"
proof -
  obtain st where st: "run_session Map.empty xs = Inr st"
    and ev: "events_of st = rev (map event_of (filter triggered xs)) @ events_of Map.empty"
    using run_session_eval [of Map.empty xs] by blast
  have e0: "events_of Map.empty = []" by (simp add: events_of_def)
  have a: "events_of st = rev (map event_of (filter triggered xs))" using ev e0 by simp
  have b: "length (events_of st) = length (filter triggered xs)" using a by simp
  have c: "events_of st ! 0 = event_of (last (filter triggered xs))"
    if "filter triggered xs \<noteq> []"
    using that a by (simp add: rev_nth last_conv_nth nth_map)
  have d: "\<exists>st0 new. run_session Map.empty ys = Inr st0 \<and>
           events_of st = new @ events_of st0 \<and> length new = length (filter triggered zs)"
    if "xs = ys @ zs" for ys zs
  proof -
    obtain st0 where 0: "run_session Map.empty ys = Inr st0"
      using run_session_eval [of Map.empty ys] by blast
    obtain st1 where 1: "run_session st0 zs = Inr st1"
      and 2: "events_of st1 = rev (map event_of (filter triggered zs)) @ events_of st0"
      using run_session_eval [of st0 zs] by blast
    have "run_session Map.empty xs = Inr st1" using that 0 1 by (simp add: run_session_append)
    with st have "st1 = st" by simp
    with 0 2 show ?thesis by auto
  qed
  from st a b c d show ?thesis by blast
qed

theorem event_log_prepend_only_witness:
  "\<exists>st. run_session Map.empty [pulse_refresh sample_draws, quiet_refresh, pulse_refresh later_draws] = Inr st \<and>
     events_of st =
       [\<lparr> time = ''12:35:00'', substation = ''Substation-A'', feeder = ''Feeder-3'',
          location = ''0.62 km'', status = ''Unauthorized Fence'' \<rparr>,
        \<lparr> time = ''12:34:56'', substation = ''Substation-B'', feeder = ''Feeder-1'',
          location = ''1.5 km'', status = ''Unauthorized Fence'' \<rparr>]"
  using event_log_prepend_only [of "[pulse_refresh sample_draws, quiet_refresh, pulse_refresh later_draws]"]
  by (auto simp: triggered_pulse_refresh not_triggered_quiet_refresh event_of_sample event_of_later)


text \<open>
  Claim C10. On a refresh in which the detector returns nothing, the event log is the
  same list after the refresh as before it, and when the session already has its
  \<^verbatim>\<open>"events"\<close> key the whole session state is unchanged.
\<close>

theorem quiet_refresh_keeps_log:
  assumes "run_detector (unauth x) (randn x) (rand x) (det x) = Inr None"
  shows "\<exists>st'. refresh x st = Inr st' \<and> events_of st' = events_of st \<and>
           (''events'' \<in> dom st \<longrightarrow> st' = st)"
proof -
  have "\<not> triggered x" using assms by (simp add: run_detector_event split: if_splits)
  then have r: "refresh x st = Inr (st(''events'' \<mapsto> events_of st))"
    by (simp add: refresh_eval)
  have "st(''events'' \<mapsto> events_of st) = st" if "''events'' \<in> dom st"
    using that by (auto simp: events_of_def fun_upd_idem_iff)
  with r show ?thesis by (simp add: events_of_upd)
qed

theorem quiet_refresh_keeps_log_witness:
  "refresh quiet_refresh [''events'' \<mapsto> [event_of (pulse_refresh sample_draws)]] =
     Inr [''events'' \<mapsto> [event_of (pulse_refresh sample_draws)]]"
proof -
  have "run_detector (unauth quiet_refresh) (randn quiet_refresh) (rand quiet_refresh)
          (det quiet_refresh) = Inr None"
    by (simp add: run_detector_event not_triggered_quiet_refresh)
  from quiet_refresh_keeps_log [OF this, of "[''events'' \<mapsto> [event_of (pulse_refresh sample_draws)]]"]
  show ?thesis by auto
qed

subsection \<open>Format of the location field\<close>




subsection \<open>CSV export\<close>

text \<open>
  Claim C7. For every non-empty event log the export is the header line
  \<^verbatim>\<open>time,substation,feeder,location,status\<close> followed by one line per logged event in
  the order of the log (newest first), and reading the file back gives the column
  names and then one row per event with the five values of that event in field
  order: the same row count, column names and values as the log.
\<close>

theorem csv_export_round_trip:
  assumes "st ''events'' = Some evs" and "evs \<noteq> []"
  shows "\<exists>csv. export_csv st = Some csv \<and>
           csv = ''time,substation,feeder,location,status'' @ [CHR 0x0A] @
                 concat (map (\<lambda>ev. csv_line (row_of ev)) evs) \<and>
           read_csv csv = columns # map row_of evs \<and>
           length (tl (read_csv csv)) = length evs"
proof -
  let ?csv = "to_csv evs"
  have e: "export_csv st = Some ?csv" using assms by (simp add: export_csv_def)
  have h: "?csv = ''time,substation,feeder,location,status'' @ [CHR 0x0A] @
                 concat (map (\<lambda>ev. csv_line (row_of ev)) evs)"
    unfolding to_csv_def by (simp add: header_line comp_def del: append.simps)
  have r: "read_csv ?csv = columns # map row_of evs" by (rule read_csv_to_csv)
  have l: "length (tl (read_csv ?csv)) = length evs" unfolding r by simp
  from e h r l show ?thesis by blast
qed

theorem csv_export_round_trip_witness:
  "export_csv [''events'' \<mapsto>
      [\<lparr> time = ''12:35:00'', substation = ''Substation-A'', feeder = ''Feeder-3'',
         location = ''0.62 km'', status = ''Unauthorized Fence'' \<rparr>,
       \<lparr> time = ''12:34:56'', substation = ''Substation-B'', feeder = ''Feeder-1'',
         location = ''1.5 km'', status = ''Unauthorized Fence'' \<rparr>]] =
     Some (''time,substation,feeder,location,status'' @ [CHR 0x0A] @
           ''12:35:00,Substation-A,Feeder-3,0.62 km,Unauthorized Fence'' @ [CHR 0x0A] @
           ''12:34:56,Substation-B,Feeder-1,1.5 km,Unauthorized Fence'' @ [CHR 0x0A]) \<and>
   read_csv (''time,substation,feeder,location,status'' @ [CHR 0x0A] @
           ''12:35:00,Substation-A,Feeder-3,0.62 km,Unauthorized Fence'' @ [CHR 0x0A] @
           ''12:34:56,Substation-B,Feeder-1,1.5 km,Unauthorized Fence'' @ [CHR 0x0A]) =
     [[''time'', ''substation'', ''feeder'', ''location'', ''status''],
      [''12:35:00'', ''Substation-A'', ''Feeder-3'', ''0.62 km'', ''Unauthorized Fence''],
      [''12:34:56'', ''Substation-B'', ''Feeder-1'', ''1.5 km'', ''Unauthorized Fence'']]"
  using csv_export_round_trip [of "[''events'' \<mapsto>
      [\<lparr> time = ''12:35:00'', substation = ''Substation-A'', feeder = ''Feeder-3'',
         location = ''0.62 km'', status = ''Unauthorized Fence'' \<rparr>,
       \<lparr> time = ''12:34:56'', substation = ''Substation-B'', feeder = ''Feeder-1'',
         location = ''1.5 km'', status = ''Unauthorized Fence'' \<rparr>]]"
      "[\<lparr> time = ''12:35:00'', substation = ''Substation-A'', feeder = ''Feeder-3'',
         location = ''0.62 km'', status = ''Unauthorized Fence'' \<rparr>,
       \<lparr> time = ''12:34:56'', substation = ''Substation-B'', feeder = ''Feeder-1'',
         location = ''1.5 km'', status = ''Unauthorized Fence'' \<rparr>]"]
  by (simp add: csv_line_def quote_field_def needs_quote_def row_of_def columns_def)

end
